theory Spec2Isabelle
  imports Main "HOL-Library.Word" "HOL-Library.Multiset"
begin

section \<open>Data model\<close>

text \<open>
  Byte slices are lists of 8-bit words. A nil slice and an empty slice are both the
  empty list: the code under study only writes hashes into a digest or hands them on,
  and tests a slice against nil in one place (the getter of HStar2Nodes), where the
  caller's answer is an option.
\<close>

type_synonym byte = "8 word"
type_synonym bytes = "byte list"

text \<open>
  crypto.Hash is an identifier of a hash algorithm of the Go library. Of it the code
  uses \<open>Size()\<close> and the streaming digest made by \<open>New()\<close>, fed by \<open>Write\<close> and read
  by \<open>Sum(nil)\<close>. The digest is modelled by the bytes written so far, and the
  algorithm by the function from those bytes to the checksum.
\<close>

record crypto_Hash =
  Size :: nat
  Digest :: "bytes \<Rightarrow> bytes"

definition hash_New :: "crypto_Hash \<Rightarrow> bytes" where
  "hash_New h = []"

definition hash_Write :: "bytes \<Rightarrow> bytes \<Rightarrow> bytes" where
  "hash_Write st p = st @ p"

definition hash_Sum :: "crypto_Hash \<Rightarrow> bytes \<Rightarrow> bytes" where
  "hash_Sum h st = Digest h st"

text \<open>maphasher.go: the struct MapHasher, with the embedded crypto.Hash.\<close>

record MapHasher =
  Hash :: crypto_Hash
  nullHashes :: "bytes list"

text \<open>Panics of the Go runtime and of the code, kept apart from returned errors.\<close>

datatype panic =
  HashEmptyOutOfBounds int
  | SliceBoundsOutOfRange
  | MakeSliceLenOutOfRange
  | ShiftOutOfMemory

section \<open>maphasher.go\<close>

definition leafHashPrefix :: byte where
  "leafHashPrefix = 0"

definition nodeHashPrefix :: byte where
  "nodeHashPrefix = 1"

definition BitLen :: "MapHasher \<Rightarrow> int" where
  "BitLen m = int (Size (Hash m)) * 8"

text \<open>
  HashLeaf and HashChildren. The calls of log.Printf write to the process log only
  and are left out; \<open>depth\<close> is computed for that log line alone.
\<close>

definition HashLeaf :: "MapHasher \<Rightarrow> int \<Rightarrow> bytes \<Rightarrow> int \<Rightarrow> bytes \<Rightarrow> bytes" where
  "HashLeaf m treeID index height leaf =
     (let h = hash_New (Hash m);
          h = hash_Write h [leafHashPrefix];
          h = hash_Write h leaf;
          r = hash_Sum (Hash m) h
      in r)"

definition HashChildren :: "MapHasher \<Rightarrow> bytes \<Rightarrow> bytes \<Rightarrow> bytes" where
  "HashChildren m l r =
     (let h = hash_New (Hash m);
          h = hash_Write h [nodeHashPrefix];
          h = hash_Write h l;
          h = hash_Write h r;
          p = hash_Sum (Hash m) h
      in p)"

text \<open>HashEmpty panics outside the table; otherwise it is a lookup.\<close>

definition HashEmpty :: "MapHasher \<Rightarrow> int \<Rightarrow> bytes \<Rightarrow> int \<Rightarrow> panic + bytes" where
  "HashEmpty m treeID index height =
     (if height < 0 \<or> height \<ge> int (length (nullHashes m))
      then Inl (HashEmptyOutOfBounds height)
      else Inr (nullHashes m ! nat height))"

text \<open>
  initNullHashes: the loop \<open>for i := 1; i < nodes; i++\<close> over the slice \<open>r\<close>, which
  \<open>make\<close> fills with \<open>nodes\<close> nil entries.
\<close>

function initNullHashes_loop :: "MapHasher \<Rightarrow> nat \<Rightarrow> nat \<Rightarrow> bytes list \<Rightarrow> bytes list" where
  "initNullHashes_loop m i nodes r =
     (if i < nodes
      then initNullHashes_loop m (Suc i) nodes (r[i := HashChildren m (r ! (i - 1)) (r ! (i - 1))])
      else r)"
  by pat_completeness auto
termination
  by (relation "measure (\<lambda>(m, i, nodes, r). nodes - i)") auto

declare initNullHashes_loop.simps [simp del]

definition initNullHashes :: "MapHasher \<Rightarrow> MapHasher" where
  "initNullHashes m =
     (let nodes = Size (Hash m) * 8 + 1;
          r = replicate nodes [];
          r = r[0 := HashLeaf m 0 [] (int (Size (Hash m) * 8)) []];
          r = initNullHashes_loop m 1 nodes r
      in m\<lparr>nullHashes := r\<rparr>)"

definition New :: "crypto_Hash \<Rightarrow> MapHasher" where
  "New h = initNullHashes \<lparr>Hash = h, nullHashes = []\<rparr>"

section \<open>hstar2.go\<close>

text \<open>
  Go's \<open>int\<close> is 64 bits wide on the platforms the repository is built for. Values of
  that type are integers here, and the three places where HStar2Nodes subtracts or
  adds two of them wrap around as the machine does. The other arithmetic on \<open>int\<close>
  (table sizes, \<open>n - 1\<close> for \<open>n > 0\<close>, lengths) cannot leave the range.
\<close>

definition go_int :: "int \<Rightarrow> int" where
  "go_int x = signed_take_bit 63 x"

text \<open>
  \<open>*big.Int\<close> is an integer. \<open>Bytes\<close> gives the big-endian bytes of the absolute
  value without leading zeros, \<open>SetBytes\<close> reads big-endian bytes as an unsigned
  number.
\<close>

function nat_Bytes :: "nat \<Rightarrow> bytes" where
  "nat_Bytes n = (if n = 0 then [] else nat_Bytes (n div 256) @ [of_nat (n mod 256)])"
  by pat_completeness auto
termination
  by (relation "measure id") auto

declare nat_Bytes.simps [simp del]

definition big_Bytes :: "int \<Rightarrow> bytes" where
  "big_Bytes i = nat_Bytes (nat \<bar>i\<bar>)"

definition big_SetBytes :: "bytes \<Rightarrow> int" where
  "big_SetBytes b = foldl (\<lambda>acc x. acc * 256 + uint x) 0 b"

text \<open>
  Errors that a call returns. \<open>CallbackError e\<close> is the error value \<open>e\<close> that a
  callback of the caller returned, handed on as it is; the constructor keeps the
  caller's error values apart from the two errors the engine makes itself.
  \<open>ErrBaseCase k\<close> is the error of fmt.Errorf in the base case, with the length it
  prints. A failure is a returned error or a panic.
\<close>

datatype 'e error =
  ErrNegativeTreeLevelOffset
  | ErrBaseCase nat
  | CallbackError 'e

datatype 'e failure =
  Error "'e error"
  | Panic panic

record HStar2LeafHash =
  Index :: int
  LeafHash :: bytes

record HStar2 =
  treeID :: int
  hasher :: MapHasher

definition NewHStar2 :: "int \<Rightarrow> MapHasher \<Rightarrow> HStar2" where
  "NewHStar2 tid h = \<lparr>treeID = tid, hasher = h\<rparr>"

text \<open>
  PaddedBytes. \<open>make\<close> panics on a negative size, and the slice expression
  \<open>ret[padBytes:]\<close> panics when \<open>padBytes\<close> is negative (it is never larger than
  \<open>len(ret)\<close>). \<open>copy\<close> overwrites the first min(len dst, len src) bytes of \<open>dst\<close>.
\<close>

definition copy_bytes :: "bytes \<Rightarrow> bytes \<Rightarrow> bytes" where
  "copy_bytes dst src = take (length dst) src @ drop (length src) dst"

definition PaddedBytes :: "int \<Rightarrow> int \<Rightarrow> panic + bytes" where
  "PaddedBytes i sz =
     (let b = big_Bytes i in
      if sz < 0 then Inl MakeSliceLenOutOfRange
      else
        let ret = replicate (nat sz) (0 :: byte);
            padBytes = int (length ret) - int (length b)
        in if padBytes < 0 then Inl SliceBoundsOutOfRange
           else Inr (take (nat padBytes) ret @ copy_bytes (drop (nat padBytes) ret) b))"

text \<open>
  Sorting. ByIndex.Less compares the indices of the elements at two positions; here
  it takes the two elements. sort.Sort of the Go library promises a permutation in
  which no element is Less than one before it, and no order among elements with equal
  index. It is modelled by insertion; the theorems below that concern sorted input
  are proved for every sorted arrangement, so they do not lean on the order of ties.
\<close>

definition Less :: "HStar2LeafHash \<Rightarrow> HStar2LeafHash \<Rightarrow> bool" where
  "Less a b \<longleftrightarrow> Index a < Index b"

fun sort_insert :: "HStar2LeafHash \<Rightarrow> HStar2LeafHash list \<Rightarrow> HStar2LeafHash list" where
  "sort_insert x [] = [x]"
| "sort_insert x (y # ys) = (if Less x y then x # y # ys else y # sort_insert x ys)"

definition sort_Sort :: "HStar2LeafHash list \<Rightarrow> HStar2LeafHash list" where
  "sort_Sort values = foldl (\<lambda>acc v. sort_insert v acc) [] values"

text \<open>
  sort.Search of the Go library: binary search for the least \<open>i\<close> in \<open>[0, n]\<close> with
  \<open>f i\<close>, for an \<open>f\<close> that is false on a prefix and true after it.
\<close>

function sort_Search_loop :: "(nat \<Rightarrow> bool) \<Rightarrow> nat \<Rightarrow> nat \<Rightarrow> nat" where
  "sort_Search_loop f i j =
     (if i < j
      then let h = (i + j) div 2
           in if \<not> f h then sort_Search_loop f (h + 1) j else sort_Search_loop f i h
      else i)"
  by pat_completeness auto
termination
  by (relation "measure (\<lambda>(f, i, j). j - i)") auto

declare sort_Search_loop.simps [simp del]

definition sort_Search :: "nat \<Rightarrow> (nat \<Rightarrow> bool) \<Rightarrow> nat" where
  "sort_Search n f = sort_Search_loop f 0 n"

text \<open>
  The callbacks. They may read and change state of the caller, which is threaded
  through as \<open>'s\<close>. Inside hStar2b a getter yields a hash, an error or a panic; a
  setter yields an error or nil, and may itself be nil (\<open>None\<close>).
  The getter and setter that a caller passes to HStar2Nodes answer with the caller's
  own error values; the getter's hash may be nil (\<open>None\<close>).
\<close>

type_synonym ('e, 's) GetNodeFunc = "int \<Rightarrow> int \<Rightarrow> 's \<Rightarrow> ('e failure + bytes) \<times> 's"
type_synonym ('e, 's) SetNodeFunc = "int \<Rightarrow> int \<Rightarrow> bytes \<Rightarrow> 's \<Rightarrow> 'e error option \<times> 's"
type_synonym ('e, 's) SparseGetNodeFunc = "int \<Rightarrow> int \<Rightarrow> 's \<Rightarrow> ('e + bytes option) \<times> 's"
type_synonym ('e, 's) SparseSetNodeFunc = "int \<Rightarrow> int \<Rightarrow> bytes \<Rightarrow> 's \<Rightarrow> 'e option \<times> 's"

text \<open>
  hStar2b. For \<open>n < 0\<close> and values at hand, \<open>uint(n-1)\<close> is at least \<open>2^63 - 1\<close> and
  \<open>Lsh\<close> cannot allocate its result: the call dies there. The value that \<open>set\<close>
  returns is dropped, as in the source. (The parameter \<open>set\<close> is written \<open>setf\<close>.)
\<close>

function hStar2b :: "HStar2 \<Rightarrow> int \<Rightarrow> HStar2LeafHash list \<Rightarrow> int \<Rightarrow>
    ('e, 's) GetNodeFunc \<Rightarrow> ('e, 's) SetNodeFunc option \<Rightarrow> 's \<Rightarrow> ('e failure + bytes) \<times> 's" where
  "hStar2b s n values offset get setf \<sigma> =
     (if n = 0 then
        (if length values = 0 then get n offset \<sigma>
         else if length values \<noteq> 1 then (Inl (Error (ErrBaseCase (length values))), \<sigma>)
         else (Inr (LeafHash (values ! 0)), \<sigma>))
      else if length values = 0 then get n offset \<sigma>
      else if n < 0 then (Inl (Panic ShiftOutOfMemory), \<sigma>)
      else
        let split = 2 ^ nat (n - 1) + offset;
            i = sort_Search (length values) (\<lambda>i. Index (values ! i) \<ge> split)
        in case hStar2b s (n - 1) (take i values) offset get setf \<sigma> of
             (Inl err, \<sigma>1) \<Rightarrow> (Inl err, \<sigma>1)
           | (Inr lhs, \<sigma>1) \<Rightarrow>
               (case hStar2b s (n - 1) (drop i values) split get setf \<sigma>1 of
                  (Inl err, \<sigma>2) \<Rightarrow> (Inl err, \<sigma>2)
                | (Inr rhs, \<sigma>2) \<Rightarrow>
                    let h = HashChildren (hasher s) lhs rhs
                    in (case setf of
                          None \<Rightarrow> (Inr h, \<sigma>2)
                        | Some set_fn \<Rightarrow>
                            (case set_fn n offset h \<sigma>2 of (_, \<sigma>3) \<Rightarrow> (Inr h, \<sigma>3)))))"
  by pat_completeness auto
termination
  by (relation "measure (\<lambda>(s, n, values, offset, get, setf, \<sigma>). nat n)") auto

declare hStar2b.simps [simp del]

text \<open>HStar2Root, with its two closures. It has no state of a caller to thread.\<close>

definition HStar2Root_get :: "HStar2 \<Rightarrow> ('e, 's) GetNodeFunc" where
  "HStar2Root_get s = (\<lambda>depth index \<sigma>.
     case PaddedBytes index (int (Size (Hash (hasher s)))) of
       Inl p \<Rightarrow> (Inl (Panic p), \<sigma>)
     | Inr pb \<Rightarrow>
         (case HashEmpty (hasher s) (treeID s) pb depth of
            Inl p \<Rightarrow> (Inl (Panic p), \<sigma>)
          | Inr h \<Rightarrow> (Inr h, \<sigma>)))"

definition HStar2Root_set :: "('e, 's) SetNodeFunc" where
  "HStar2Root_set = (\<lambda>depth index hash \<sigma>. (None, \<sigma>))"

text \<open>
  The result of HStar2Root and of HStar2Nodes is what the call returns or how it
  fails, together with the caller's slice as the call leaves it (the sort is in
  place) and, for HStar2Nodes, the caller's state.
\<close>

definition HStar2Root :: "HStar2 \<Rightarrow> int \<Rightarrow> HStar2LeafHash list \<Rightarrow>
    ('e failure + bytes) \<times> HStar2LeafHash list" where
  "HStar2Root s n values =
     (let values = sort_Sort values
      in (fst (hStar2b s n values 0 (HStar2Root_get s) (Some HStar2Root_set) ()), values))"

definition HStar2Nodes_get :: "HStar2 \<Rightarrow> int \<Rightarrow> int \<Rightarrow> ('e, 's) SparseGetNodeFunc \<Rightarrow>
    ('e, 's) GetNodeFunc" where
  "HStar2Nodes_get s treeDepth treeLevelOffset get = (\<lambda>depth index \<sigma>.
     case get (go_int (treeDepth - depth)) index \<sigma> of
       (Inl err, \<sigma>') \<Rightarrow> (Inl (Error (CallbackError err)), \<sigma>')
     | (Inr (Some h), \<sigma>') \<Rightarrow> (Inr h, \<sigma>')
     | (Inr None, \<sigma>') \<Rightarrow>
         (case PaddedBytes index (int (Size (Hash (hasher s)))) of
            Inl p \<Rightarrow> (Inl (Panic p), \<sigma>')
          | Inr pb \<Rightarrow>
              (case HashEmpty (hasher s) (treeID s) pb (go_int (depth + treeLevelOffset)) of
                 Inl p \<Rightarrow> (Inl (Panic p), \<sigma>')
               | Inr h \<Rightarrow> (Inr h, \<sigma>'))))"

definition HStar2Nodes_set :: "int \<Rightarrow> ('e, 's) SparseSetNodeFunc \<Rightarrow> ('e, 's) SetNodeFunc" where
  "HStar2Nodes_set treeDepth setf = (\<lambda>depth index hash \<sigma>.
     case setf (go_int (treeDepth - depth)) index hash \<sigma> of
       (None, \<sigma>') \<Rightarrow> (None, \<sigma>')
     | (Some err, \<sigma>') \<Rightarrow> (Some (CallbackError err), \<sigma>'))"

definition HStar2Nodes :: "HStar2 \<Rightarrow> bytes \<Rightarrow> int \<Rightarrow> int \<Rightarrow> HStar2LeafHash list \<Rightarrow>
    ('e, 's) SparseGetNodeFunc \<Rightarrow> ('e, 's) SparseSetNodeFunc \<Rightarrow> 's \<Rightarrow>
    (('e failure + bytes) \<times> 's) \<times> HStar2LeafHash list" where
  "HStar2Nodes s index depth subtreeDepth values get setf \<sigma> =
     (let treeDepth = subtreeDepth;
          treeLevelOffset = go_int (go_int (BitLen (hasher s) - depth) - subtreeDepth)
      in if treeLevelOffset < 0 then ((Inl (Error ErrNegativeTreeLevelOffset), \<sigma>), values)
         else
           let values = sort_Sort values;
               offset = big_SetBytes index
           in (hStar2b s treeDepth values offset
                 (HStar2Nodes_get s treeDepth treeLevelOffset get)
                 (Some (HStar2Nodes_set treeDepth setf)) \<sigma>, values))"

section \<open>The recursive core as the specification words it\<close>

text \<open>
  Section 4.3 of the specification, "Recursive core \<open>h(n, values, offset)\<close>":
  at \<open>n = 0\<close> return \<open>get(0, offset)\<close> for no value, the leaf hash for exactly one,
  and an error otherwise; for no values return \<open>get(n, offset)\<close>; otherwise let
  \<open>split = offset + 2^(n-1)\<close>, cut the values at the first index \<open>\<ge> split\<close>,
  recurse left with \<open>offset\<close> and right with \<open>split\<close>, combine with HashChildren,
  call \<open>set(n, offset, combined)\<close> and return the combined hash. Errors of the
  recursive calls come back unchanged. This definition follows those words and not
  the code; \<open>first_index_ge\<close> is the position of the first value whose index is
  \<open>\<ge> split\<close>, or the length if there is none.
\<close>

definition first_index_ge :: "int \<Rightarrow> HStar2LeafHash list \<Rightarrow> nat" where
  "first_index_ge split vs = length (takeWhile (\<lambda>v. Index v < split) vs)"

fun h_spec :: "HStar2 \<Rightarrow> nat \<Rightarrow> HStar2LeafHash list \<Rightarrow> int \<Rightarrow>
    ('e, 's) GetNodeFunc \<Rightarrow> ('e, 's) SetNodeFunc \<Rightarrow> 's \<Rightarrow> ('e failure + bytes) \<times> 's" where
  "h_spec s 0 vs offset get setf st =
     (case vs of
        [] \<Rightarrow> get 0 offset st
      | [v] \<Rightarrow> (Inr (LeafHash v), st)
      | _ \<Rightarrow> (Inl (Error (ErrBaseCase (length vs))), st))"
| "h_spec s (Suc m) vs offset get setf st =
     (if vs = [] then get (int (Suc m)) offset st
      else
        let split = offset + 2 ^ m;
            i = first_index_ge split vs;
            lhs_values = take i vs;
            rhs_values = drop i vs
        in case h_spec s m lhs_values offset get setf st of
             (Inl err, st1) \<Rightarrow> (Inl err, st1)
           | (Inr lhs, st1) \<Rightarrow>
               (case h_spec s m rhs_values split get setf st1 of
                  (Inl err, st2) \<Rightarrow> (Inl err, st2)
                | (Inr rhs, st2) \<Rightarrow>
                    let combined = HashChildren (hasher s) lhs rhs;
                        st3 = snd (setf (int (Suc m)) offset combined st2)
                    in (Inr combined, st3)))"

section \<open>The levels as the specification words them\<close>

text \<open>
  Section 4.3 of the specification: the level passed to \<open>get\<close> and \<open>set\<close> is
  \<open>subtree_depth - n\<close>, where \<open>n\<close> is the local recursion height, and the height
  passed to HashEmpty is \<open>n + (bit_len - depth - subtree_depth)\<close>. These two
  definitions follow those words, in unbounded integers; they are the callbacks
  that the recursive core would be run with.
\<close>

definition spec_get :: "HStar2 \<Rightarrow> int \<Rightarrow> int \<Rightarrow> ('e, 's) SparseGetNodeFunc \<Rightarrow>
    ('e, 's) GetNodeFunc" where
  "spec_get s depth subtree_depth get = (\<lambda>n index st.
     case get (subtree_depth - n) index st of
       (Inl err, st') \<Rightarrow> (Inl (Error (CallbackError err)), st')
     | (Inr (Some h), st') \<Rightarrow> (Inr h, st')
     | (Inr None, st') \<Rightarrow>
         (case PaddedBytes index (int (Size (Hash (hasher s)))) of
            Inl p \<Rightarrow> (Inl (Panic p), st')
          | Inr pb \<Rightarrow>
              (case HashEmpty (hasher s) (treeID s) pb
                      (n + (BitLen (hasher s) - depth - subtree_depth)) of
                 Inl p \<Rightarrow> (Inl (Panic p), st')
               | Inr h \<Rightarrow> (Inr h, st'))))"

definition spec_set :: "int \<Rightarrow> ('e, 's) SparseSetNodeFunc \<Rightarrow> ('e, 's) SetNodeFunc" where
  "spec_set subtree_depth setf = (\<lambda>n index hash st.
     case setf (subtree_depth - n) index hash st of
       (None, st') \<Rightarrow> (None, st')
     | (Some err, st') \<Rightarrow> (Some (CallbackError err), st'))"

section \<open>Worked examples\<close>

text \<open>
  A one-byte checksum that stands in for a hash algorithm in the worked examples:
  the sum of the bytes plus their number. The trees it gives have height 8.
\<close>

definition toy_Hash :: crypto_Hash where
  "toy_Hash = \<lparr>Size = 1, Digest = (\<lambda>p. [sum_list p + of_nat (length p)])\<rparr>"

text \<open>
  The position at which hStar2b cuts its values at height \<open>n\<close>, named for use in the
  statements about it.
\<close>

definition hStar2b_cut :: "int \<Rightarrow> HStar2LeafHash list \<Rightarrow> int \<Rightarrow> nat" where
  "hStar2b_cut n vs offset =
     sort_Search (length vs) (\<lambda>i. Index (vs ! i) \<ge> 2 ^ nat (n - 1) + offset)"

text \<open>
  An engine over that checksum, and callbacks of a caller whose state is the list
  of the calls made so far: each call is appended with its arguments, and answered
  by the given function.
\<close>

definition toy_engine :: HStar2 where
  "toy_engine = NewHStar2 7 (New toy_Hash)"

datatype event =
  GetEvent int int
  | SetEvent int int bytes

definition rec_get :: "(int \<Rightarrow> int \<Rightarrow> 'e + bytes option) \<Rightarrow> ('e, event list) SparseGetNodeFunc" where
  "rec_get answer = (\<lambda>level index tr. (answer level index, tr @ [GetEvent level index]))"

definition rec_set :: "(int \<Rightarrow> int \<Rightarrow> bytes \<Rightarrow> 'e option) \<Rightarrow> ('e, event list) SparseSetNodeFunc" where
  "rec_set answer = (\<lambda>level index hash tr. (answer level index hash, tr @ [SetEvent level index hash]))"

text \<open>A getter that has no node stored, and a setter that stores without error.\<close>

definition no_node :: "int \<Rightarrow> int \<Rightarrow> unit + bytes option" where
  "no_node level index = Inr None"

definition store_ok :: "int \<Rightarrow> int \<Rightarrow> bytes \<Rightarrow> unit option" where
  "store_ok level index hash = None"

section \<open>Properties of the map hasher\<close>

lemma HashChildren_Hash_cong:
  "Hash m = Hash m' \<Longrightarrow> HashChildren m l r = HashChildren m' l r"
  by (simp add: HashChildren_def)

lemma initNullHashes_loop_length:
  "length (initNullHashes_loop m i nodes r) = length r"
proof (induction m i nodes r rule: initNullHashes_loop.induct)
  case (1 m i nodes r)
  then show ?case
    by (subst initNullHashes_loop.simps) simp
qed

lemma initNullHashes_loop_below:
  "k < i \<Longrightarrow> initNullHashes_loop m i nodes r ! k = r ! k"
proof (induction m i nodes r rule: initNullHashes_loop.induct)
  case (1 m i nodes r)
  show ?case
  proof (cases "i < nodes")
    case True
    have "initNullHashes_loop m i nodes r ! k =
          initNullHashes_loop m (Suc i) nodes (r[i := HashChildren m (r ! (i - 1)) (r ! (i - 1))]) ! k"
      using True by (subst initNullHashes_loop.simps) simp
    also have "\<dots> = (r[i := HashChildren m (r ! (i - 1)) (r ! (i - 1))]) ! k"
      using "1.IH" [OF True] "1.prems" by simp
    also have "\<dots> = r ! k"
      using "1.prems" by simp
    finally show ?thesis .
  next
    case False
    then show ?thesis
      by (subst initNullHashes_loop.simps) simp
  qed
qed

lemma initNullHashes_loop_step:
  "i \<le> k \<Longrightarrow> k < nodes \<Longrightarrow> nodes \<le> length r \<Longrightarrow> 0 < i \<Longrightarrow>
   initNullHashes_loop m i nodes r ! k =
   HashChildren m (initNullHashes_loop m i nodes r ! (k - 1))
                  (initNullHashes_loop m i nodes r ! (k - 1))"
proof (induction m i nodes r rule: initNullHashes_loop.induct)
  case (1 m i nodes r)
  let ?r' = "r[i := HashChildren m (r ! (i - 1)) (r ! (i - 1))]"
  have lt: "i < nodes"
    using "1.prems" by simp
  have unfold: "initNullHashes_loop m i nodes r = initNullHashes_loop m (Suc i) nodes ?r'"
    using lt by (subst initNullHashes_loop.simps) simp
  show ?case
  proof (cases "k = i")
    case True
    have a: "initNullHashes_loop m (Suc i) nodes ?r' ! i = ?r' ! i"
      by (rule initNullHashes_loop_below) simp
    have b: "initNullHashes_loop m (Suc i) nodes ?r' ! (i - 1) = ?r' ! (i - 1)"
      using "1.prems" by (intro initNullHashes_loop_below) simp
    have c: "?r' ! i = HashChildren m (r ! (i - 1)) (r ! (i - 1))"
      using lt "1.prems" by simp
    have d: "?r' ! (i - 1) = r ! (i - 1)"
      using "1.prems" by simp
    show ?thesis
      unfolding unfold using True a b c d by simp
  next
    case False
    then have "Suc i \<le> k"
      using "1.prems" by simp
    then show ?thesis
      unfolding unfold using "1.IH" [OF lt] "1.prems" by simp
  qed
qed

lemma length_nullHashes_New:
  "length (nullHashes (New h)) = Size h * 8 + 1"
  by (simp add: New_def initNullHashes_def Let_def initNullHashes_loop_length)

lemma Hash_New [simp]: "Hash (New h) = h"
  by (simp add: New_def initNullHashes_def Let_def)

lemma nullHashes_New_0:
  "nullHashes (New h) ! 0 = HashLeaf (New h) 0 [] (BitLen (New h)) []"
proof -
  let ?m = "\<lparr>Hash = h, nullHashes = []\<rparr>"
  let ?nodes = "Size h * 8 + 1"
  let ?r = "(replicate ?nodes [])[0 := HashLeaf ?m 0 [] (int (Size h * 8)) []]"
  have "nullHashes (New h) ! 0 = initNullHashes_loop ?m 1 ?nodes ?r ! 0"
    by (simp add: New_def initNullHashes_def Let_def)
  also have "\<dots> = ?r ! 0"
    by (rule initNullHashes_loop_below) simp
  also have "\<dots> = HashLeaf ?m 0 [] (int (Size h * 8)) []"
    by simp
  also have "\<dots> = HashLeaf (New h) 0 [] (BitLen (New h)) []"
    by (simp add: HashLeaf_def BitLen_def)
  finally show ?thesis .
qed

lemma nullHashes_New_step:
  assumes "1 \<le> k" and "k \<le> Size h * 8"
  shows "nullHashes (New h) ! k =
         HashChildren (New h) (nullHashes (New h) ! (k - 1)) (nullHashes (New h) ! (k - 1))"
proof -
  let ?m = "\<lparr>Hash = h, nullHashes = []\<rparr>"
  let ?nodes = "Size h * 8 + 1"
  let ?r = "(replicate ?nodes [])[0 := HashLeaf ?m 0 [] (int (Size h * 8)) []]"
  have eq: "nullHashes (New h) = initNullHashes_loop ?m 1 ?nodes ?r"
    by (simp add: New_def initNullHashes_def Let_def)
  have "initNullHashes_loop ?m 1 ?nodes ?r ! k =
        HashChildren ?m (initNullHashes_loop ?m 1 ?nodes ?r ! (k - 1))
                        (initNullHashes_loop ?m 1 ?nodes ?r ! (k - 1))"
    using assms by (intro initNullHashes_loop_step) simp_all
  moreover have "HashChildren ?m x y = HashChildren (New h) x y" for x y
    by (rule HashChildren_Hash_cong) simp
  ultimately show ?thesis
    using eq by simp
qed

text \<open>
  Claim C7. HashLeaf is the checksum of the byte 0x00 followed by the leaf, whatever
  the tree id, the index and the height are; HashChildren is the checksum of the
  byte 0x01 followed by the left and then the right child hash.
\<close>

theorem C7_hash_preimages:
  "HashLeaf m tid index height leaf = Digest (Hash m) ((0 :: byte) # leaf)
   \<and> HashLeaf m tid index height leaf = HashLeaf m tid' index' height' leaf
   \<and> HashChildren m l r = Digest (Hash m) ((1 :: byte) # l @ r)"
  by (simp add: HashLeaf_def HashChildren_def hash_New_def hash_Write_def hash_Sum_def
      leafHashPrefix_def nodeHashPrefix_def)

text \<open>
  Claim C5. The table of a hasher made by New has BitLen + 1 entries; entry 0 is the
  hash of the empty leaf and entry k is HashChildren of entry k - 1 with itself, for
  1 \<le> k \<le> BitLen. HashEmpty returns entry k for every height k in [0, BitLen] and
  panics for every other height.
\<close>

theorem C5_null_hash_ladder:
  "int (length (nullHashes (New h))) = BitLen (New h) + 1
   \<and> nullHashes (New h) ! 0 = HashLeaf (New h) 0 [] (BitLen (New h)) []
   \<and> (\<forall>k. 1 \<le> k \<and> int k \<le> BitLen (New h) \<longrightarrow>
          nullHashes (New h) ! k =
          HashChildren (New h) (nullHashes (New h) ! (k - 1)) (nullHashes (New h) ! (k - 1)))
   \<and> (\<forall>k. 0 \<le> k \<and> k \<le> BitLen (New h) \<longrightarrow>
          HashEmpty (New h) tid index k = Inr (nullHashes (New h) ! nat k))
   \<and> (\<forall>k. k < 0 \<or> BitLen (New h) < k \<longrightarrow>
          HashEmpty (New h) tid index k = Inl (HashEmptyOutOfBounds k))"
proof (intro conjI allI impI)
  show "int (length (nullHashes (New h))) = BitLen (New h) + 1"
    by (simp add: length_nullHashes_New BitLen_def)
  show "nullHashes (New h) ! 0 = HashLeaf (New h) 0 [] (BitLen (New h)) []"
    by (rule nullHashes_New_0)
next
  fix k :: nat
  assume "1 \<le> k \<and> int k \<le> BitLen (New h)"
  then have "1 \<le> k" and "k \<le> Size h * 8"
    by (simp_all add: BitLen_def)
  then show "nullHashes (New h) ! k =
      HashChildren (New h) (nullHashes (New h) ! (k - 1)) (nullHashes (New h) ! (k - 1))"
    by (rule nullHashes_New_step)
next
  fix k :: int
  assume "0 \<le> k \<and> k \<le> BitLen (New h)"
  then show "HashEmpty (New h) tid index k = Inr (nullHashes (New h) ! nat k)"
    by (simp add: HashEmpty_def length_nullHashes_New BitLen_def)
next
  fix k :: int
  assume "k < 0 \<or> BitLen (New h) < k"
  then show "HashEmpty (New h) tid index k = Inl (HashEmptyOutOfBounds k)"
    by (auto simp: HashEmpty_def length_nullHashes_New BitLen_def)
qed

theorem C5_null_hash_ladder_witness:
  "nullHashes (New toy_Hash) ! 1 =
     HashChildren (New toy_Hash) (nullHashes (New toy_Hash) ! 0) (nullHashes (New toy_Hash) ! 0)
   \<and> HashEmpty (New toy_Hash) 0 [] 8 = Inr (nullHashes (New toy_Hash) ! 8)
   \<and> HashEmpty (New toy_Hash) 0 [] 9 = Inl (HashEmptyOutOfBounds 9)
   \<and> HashEmpty (New toy_Hash) 0 [] (- 1) = Inl (HashEmptyOutOfBounds (- 1))"
proof -
  have b: "BitLen (New toy_Hash) = 8"
    by (simp add: BitLen_def toy_Hash_def)
  note t = C5_null_hash_ladder [of toy_Hash 0 "[]"]
  have "nullHashes (New toy_Hash) ! 1 =
     HashChildren (New toy_Hash) (nullHashes (New toy_Hash) ! (1 - 1)) (nullHashes (New toy_Hash) ! (1 - 1))"
    using t b by simp
  moreover have "HashEmpty (New toy_Hash) 0 [] 8 = Inr (nullHashes (New toy_Hash) ! nat 8)"
    using t b by simp
  moreover have "HashEmpty (New toy_Hash) 0 [] 9 = Inl (HashEmptyOutOfBounds 9)"
    using t b by simp
  moreover have "HashEmpty (New toy_Hash) 0 [] (- 1) = Inl (HashEmptyOutOfBounds (- 1))"
    using t b by simp
  ultimately show ?thesis
    by simp
qed

section \<open>Properties of PaddedBytes\<close>

lemma nat_Bytes_0 [simp]: "nat_Bytes 0 = []"
  by (subst nat_Bytes.simps) simp

lemma nat_Bytes_pos: "0 < n \<Longrightarrow> nat_Bytes n = nat_Bytes (n div 256) @ [of_nat (n mod 256)]"
  by (subst nat_Bytes.simps) simp

lemma nat_Bytes_eq_Nil [simp]: "nat_Bytes n = [] \<longleftrightarrow> n = 0"
  by (subst nat_Bytes.simps) simp

lemma uint_byte_of_nat: "uint (of_nat k :: byte) = int (k mod 256)"
  by (simp add: unsigned_of_nat take_bit_eq_mod)

lemma big_SetBytes_snoc: "big_SetBytes (b @ [x]) = big_SetBytes b * 256 + uint x"
  by (simp add: big_SetBytes_def)

lemma big_SetBytes_nat_Bytes: "big_SetBytes (nat_Bytes n) = int n"
proof (induction n rule: nat_Bytes.induct)
  case (1 n)
  show ?case
  proof (cases "n = 0")
    case True
    then show ?thesis by (simp add: big_SetBytes_def)
  next
    case False
    then have "big_SetBytes (nat_Bytes n) = int (n div 256) * 256 + int (n mod 256)"
      using 1 by (simp add: nat_Bytes_pos big_SetBytes_snoc uint_byte_of_nat)
    also have "\<dots> = int n"
      by (simp add: zdiv_int zmod_int)
    finally show ?thesis .
  qed
qed

lemma hd_nat_Bytes: "0 < n \<Longrightarrow> hd (nat_Bytes n) \<noteq> 0"
proof (induction n rule: nat_Bytes.induct)
  case (1 n)
  show ?case
  proof (cases "n div 256 = 0")
    case True
    then have small: "n < 256" by (simp add: div_eq_0_iff)
    then have "uint (of_nat n :: byte) \<noteq> 0"
      using "1.prems" by (simp add: uint_byte_of_nat)
    then have "(of_nat n :: byte) \<noteq> 0"
      by auto
    then show ?thesis
      using True "1.prems" small by (simp add: nat_Bytes_pos)
  next
    case False
    then have pos: "0 < n div 256" by simp
    have ne: "nat_Bytes (n div 256) \<noteq> []"
      using pos by simp
    have "hd (nat_Bytes n) = hd (nat_Bytes (n div 256))"
      using ne by (subst nat_Bytes_pos [OF "1.prems"]) simp
    then show ?thesis
      using "1.IH" "1.prems" pos by simp
  qed
qed

lemma big_SetBytes_zeros: "big_SetBytes (replicate k 0 @ b) = big_SetBytes b"
proof -
  have "foldl (\<lambda>acc x. acc * 256 + uint x) 0 (replicate k (0::byte)) = 0"
    by (induction k) simp_all
  then show ?thesis
    by (simp add: big_SetBytes_def)
qed

lemma PaddedBytes_fits:
  assumes "int (length (big_Bytes i)) \<le> sz"
  shows "PaddedBytes i sz = Inr (replicate (nat sz - length (big_Bytes i)) 0 @ big_Bytes i)"
proof -
  have sz: "0 \<le> sz" using assms by linarith
  have pad: "nat (sz - int (length (big_Bytes i))) = nat sz - length (big_Bytes i)"
    using assms by linarith
  have le: "length (big_Bytes i) \<le> nat sz"
    using assms by linarith
  show ?thesis
    using sz assms le by (simp add: PaddedBytes_def Let_def copy_bytes_def pad)
qed

lemma PaddedBytes_too_long:
  assumes "sz < int (length (big_Bytes i))"
  shows "PaddedBytes i sz = Inl (if sz < 0 then MakeSliceLenOutOfRange else SliceBoundsOutOfRange)"
  using assms by (auto simp: PaddedBytes_def Let_def)

text \<open>
  Claim C10. For \<open>i \<ge> 0\<close>, \<open>big_Bytes i\<close> is the shortest big-endian encoding of
  \<open>i\<close>: it reads back as \<open>i\<close> and has no leading zero byte. When it has at most
  \<open>sz\<close> bytes, PaddedBytes returns it behind \<open>sz - length\<close> zero bytes, that is
  \<open>sz\<close> bytes that still read back as \<open>i\<close>. When it has more than \<open>sz\<close> bytes,
  PaddedBytes panics: on the slice bound for a width \<open>sz \<ge> 0\<close>, and already in
  \<open>make\<close> for a negative \<open>sz\<close>.
\<close>

theorem C10_PaddedBytes:
  assumes "0 \<le> i"
  shows "big_SetBytes (big_Bytes i) = i
    \<and> (big_Bytes i \<noteq> [] \<longrightarrow> hd (big_Bytes i) \<noteq> 0)
    \<and> (int (length (big_Bytes i)) \<le> sz \<longrightarrow>
          PaddedBytes i sz = Inr (replicate (nat sz - length (big_Bytes i)) 0 @ big_Bytes i)
          \<and> int (length (replicate (nat sz - length (big_Bytes i)) (0 :: byte) @ big_Bytes i)) = sz
          \<and> big_SetBytes (replicate (nat sz - length (big_Bytes i)) 0 @ big_Bytes i) = i)
    \<and> (sz < int (length (big_Bytes i)) \<longrightarrow>
          PaddedBytes i sz = Inl (if sz < 0 then MakeSliceLenOutOfRange else SliceBoundsOutOfRange))"
proof -
  have rt: "big_SetBytes (big_Bytes i) = i"
    using assms by (simp add: big_Bytes_def big_SetBytes_nat_Bytes)
  have lead: "big_Bytes i \<noteq> [] \<longrightarrow> hd (big_Bytes i) \<noteq> 0"
    using assms by (simp add: big_Bytes_def hd_nat_Bytes)
  have len: "int (length (big_Bytes i)) \<le> sz \<longrightarrow>
      int (length (replicate (nat sz - length (big_Bytes i)) (0 :: byte) @ big_Bytes i)) = sz"
    by auto
  show ?thesis
    using rt lead len PaddedBytes_fits [of i sz] PaddedBytes_too_long [of sz i]
    by (simp add: big_SetBytes_zeros)
qed

theorem C10_PaddedBytes_witness:
  "(0 :: int) \<le> 258
   \<and> PaddedBytes 258 4 = Inr [0, 0, 1, 2]
   \<and> PaddedBytes 258 2 = Inr [1, 2]
   \<and> PaddedBytes 258 1 = Inl SliceBoundsOutOfRange"
proof -
  have b: "big_Bytes 258 = [1, 2]"
    by (simp add: big_Bytes_def nat_Bytes_pos)
  show ?thesis
    using C10_PaddedBytes [of 258 4] C10_PaddedBytes [of 258 2] C10_PaddedBytes [of 258 1] b
    by (simp add: numeral_eq_Suc)
qed

section \<open>Sorting\<close>

lemma mset_sort_insert: "mset (sort_insert x xs) = add_mset x (mset xs)"
  by (induction xs) simp_all

lemma set_sort_insert: "set (sort_insert x xs) = insert x (set xs)"
  by (induction xs) auto

lemma sorted_sort_insert:
  "sorted (map Index xs) \<Longrightarrow> sorted (map Index (sort_insert x xs))"
  by (induction xs) (auto simp: Less_def set_sort_insert)

lemma mset_foldl_sort_insert:
  "mset (foldl (\<lambda>acc v. sort_insert v acc) acc vs) = mset acc + mset vs"
  by (induction vs arbitrary: acc) (simp_all add: mset_sort_insert)

lemma sorted_foldl_sort_insert:
  "sorted (map Index acc) \<Longrightarrow> sorted (map Index (foldl (\<lambda>acc v. sort_insert v acc) acc vs))"
  by (induction vs arbitrary: acc) (simp_all add: sorted_sort_insert)

lemma mset_sort_Sort: "mset (sort_Sort vs) = mset vs"
  by (simp add: sort_Sort_def mset_foldl_sort_insert)

lemma sorted_sort_Sort: "sorted (map Index (sort_Sort vs))"
  by (simp add: sort_Sort_def sorted_foldl_sort_insert)

section \<open>The recursion of hStar2b\<close>

lemma hStar2b_base:
  "hStar2b s 0 vs offset get setf st =
     (if vs = [] then get 0 offset st
      else if length vs \<noteq> 1 then (Inl (Error (ErrBaseCase (length vs))), st)
      else (Inr (LeafHash (vs ! 0)), st))"
  by (subst hStar2b.simps) simp

lemma hStar2b_empty: "hStar2b s n [] offset get setf st = get n offset st"
  by (subst hStar2b.simps) simp

lemma hStar2b_neg:
  "n < 0 \<Longrightarrow> vs \<noteq> [] \<Longrightarrow> hStar2b s n vs offset get setf st = (Inl (Panic ShiftOutOfMemory), st)"
  by (subst hStar2b.simps) simp

lemma hStar2b_step:
  assumes "0 < n" and "vs \<noteq> []"
  shows "hStar2b s n vs offset get setf st =
    (case hStar2b s (n - 1) (take (hStar2b_cut n vs offset) vs) offset get setf st of
       (Inl err, st1) \<Rightarrow> (Inl err, st1)
     | (Inr lhs, st1) \<Rightarrow>
         (case hStar2b s (n - 1) (drop (hStar2b_cut n vs offset) vs) (2 ^ nat (n - 1) + offset)
                 get setf st1 of
            (Inl err, st2) \<Rightarrow> (Inl err, st2)
          | (Inr rhs, st2) \<Rightarrow>
              (Inr (HashChildren (hasher s) lhs rhs),
               case setf of None \<Rightarrow> st2
               | Some f \<Rightarrow> snd (f n offset (HashChildren (hasher s) lhs rhs) st2))))"
  using assms
  by (subst hStar2b.simps)
     (simp add: Let_def hStar2b_cut_def split: prod.splits sum.splits option.splits)

lemma hStar2b_cases_induct [case_names base empty neg step]:
  assumes base: "\<And>vs offset st. P 0 vs offset st"
    and empty: "\<And>n offset st. P n [] offset st"
    and neg: "\<And>n vs offset st. n < 0 \<Longrightarrow> vs \<noteq> [] \<Longrightarrow> P n vs offset st"
    and step: "\<And>n vs offset st. 0 < n \<Longrightarrow> vs \<noteq> [] \<Longrightarrow>
        (\<And>st'. P (n - 1) (take (hStar2b_cut n vs offset) vs) offset st') \<Longrightarrow>
        (\<And>st'. P (n - 1) (drop (hStar2b_cut n vs offset) vs) (2 ^ nat (n - 1) + offset) st') \<Longrightarrow>
        P n vs offset st"
  shows "P n vs offset st"
proof (induction "nat n" arbitrary: n vs offset st)
  case (0 n vs offset st)
  then have "n \<le> 0" by simp
  then show ?case
    using base [of vs offset st] empty [of n offset st] neg [of n vs offset st]
    by (cases "n = 0"; cases "vs = []") auto
next
  case (Suc k n vs offset st)
  then have pos: "0 < n" and k: "k = nat (n - 1)" by linarith+
  show ?case
  proof (cases "vs = []")
    case True
    then show ?thesis using empty by simp
  next
    case False
    show ?thesis
      by (rule step [OF pos False]) (rule Suc.hyps(1) [OF k])+
  qed
qed



lemma go_int_in_range: "- (2 ^ 63) \<le> x \<Longrightarrow> x < 2 ^ 63 \<Longrightarrow> go_int x = x"
  by (simp add: go_int_def signed_take_bit_int_eq_self)

section \<open>The entry checks of HStar2Nodes\<close>



section \<open>The caller's slice\<close>

text \<open>
  Claim C9. HStar2Root leaves the caller's slice as a permutation of what it was
  given (the same elements, with their Index and LeafHash), in ascending order of
  Index, whatever the call returns. HStar2Nodes does the same whenever it gets past
  its entry check, and leaves the slice untouched when the check fails.
\<close>

theorem C9_values_sorted_in_place:
  "mset (snd (HStar2Root s n vs)) = mset vs
   \<and> sorted (map Index (snd (HStar2Root s n vs)))
   \<and> (if go_int (go_int (BitLen (hasher s) - depth) - sd) < 0
      then snd (HStar2Nodes s index depth sd vs get setf st) = vs
      else mset (snd (HStar2Nodes s index depth sd vs get setf st)) = mset vs
           \<and> sorted (map Index (snd (HStar2Nodes s index depth sd vs get setf st))))"
  by (simp add: HStar2Root_def HStar2Nodes_def Let_def mset_sort_Sort sorted_sort_Sort)

section \<open>Errors of the callbacks\<close>

text \<open>
  Claim C1. An error of the getter comes back from the call, but an error of the
  setter does not: hStar2b calls \<open>set\<close> and drops what it returns. In the run below,
  of a subtree of depth 1 with one leaf, the getter is asked once and answers nil,
  the setter is called once and answers with an error, and the call returns the
  hash of the subtree and no error.
\<close>

theorem C1_setter_error_dropped:
  "HStar2Nodes toy_engine [] 7 1 [\<lparr>Index = 0, LeafHash = [5]\<rparr>]
      (rec_get (\<lambda>l i. Inr None)) (rec_set (\<lambda>l i h. Some ''disk full'')) []
   = ((Inr [10], [GetEvent 1 1, SetEvent 0 0 [10]]), [\<lparr>Index = 0, LeafHash = [5]\<rparr>])"
  by code_simp

section \<open>The binary search and the cut\<close>

lemma sort_Search_loop_spec:
  assumes mono: "\<And>a b. a \<le> b \<Longrightarrow> b < n \<Longrightarrow> f a \<Longrightarrow> f b"
    and "i \<le> j" and "j \<le> n"
    and "\<And>k. k < i \<Longrightarrow> \<not> f k"
    and "\<And>k. j \<le> k \<Longrightarrow> k < n \<Longrightarrow> f k"
  shows "sort_Search_loop f i j \<le> n
    \<and> (\<forall>k < sort_Search_loop f i j. \<not> f k)
    \<and> (\<forall>k. sort_Search_loop f i j \<le> k \<and> k < n \<longrightarrow> f k)"
  using assms
proof (induction f i j rule: sort_Search_loop.induct)
  case (1 f i j)
  note mono = "1.prems"(1) and ij = "1.prems"(2) and jn = "1.prems"(3)
    and lo = "1.prems"(4) and hi = "1.prems"(5)
  show ?case
  proof (cases "i < j")
    case False
    then have r: "sort_Search_loop f i j = i"
      by (subst sort_Search_loop.simps) simp
    have e: "i = j" using False ij by simp
    show ?thesis
      unfolding r using e jn lo hi by blast
  next
    case True
    define h where "h = (i + j) div 2"
    have h1: "i \<le> h" and h2: "h < j" using True by (simp_all add: h_def)
    show ?thesis
    proof (cases "f h")
      case False
      have eq: "sort_Search_loop f i j = sort_Search_loop f (h + 1) j"
        using True False by (subst sort_Search_loop.simps) (simp add: h_def Let_def)
      have below: "\<not> f k" if "k < h + 1" for k
      proof
        assume fk: "f k"
        have "k \<le> h" using that by simp
        moreover have "h < n" using h2 jn by simp
        ultimately have "f h" using fk mono by blast
        then show False using False by simp
      qed
      show ?thesis
        unfolding eq
      proof (rule "1.IH"(1) [OF True h_def False])
        show "h + 1 \<le> j" using h2 by simp
        show "j \<le> n" by (rule jn)
        show "\<And>k. k < h + 1 \<Longrightarrow> \<not> f k" by (rule below)
        show "\<And>k. j \<le> k \<Longrightarrow> k < n \<Longrightarrow> f k" by (rule hi)
        show "\<And>a b. a \<le> b \<Longrightarrow> b < n \<Longrightarrow> f a \<Longrightarrow> f b" by (rule mono)
      qed
    next
      case fh: True
      have eq: "sort_Search_loop f i j = sort_Search_loop f i h"
        using True fh by (subst sort_Search_loop.simps) (simp add: h_def Let_def)
      have above: "f k" if "h \<le> k" "k < n" for k
        using mono [OF that fh] .
      have nfh: "\<not> \<not> f h" using fh by simp
      show ?thesis
        unfolding eq
      proof (rule "1.IH"(2) [OF True h_def nfh])
        show "i \<le> h" by (rule h1)
        show "h \<le> n" using h2 jn by simp
        show "\<And>k. k < i \<Longrightarrow> \<not> f k" by (rule lo)
        show "\<And>k. h \<le> k \<Longrightarrow> k < n \<Longrightarrow> f k" by (rule above)
        show "\<And>a b. a \<le> b \<Longrightarrow> b < n \<Longrightarrow> f a \<Longrightarrow> f b" by (rule mono)
      qed
    qed
  qed
qed


lemma hStar2b_cut_spec:
  assumes "sorted (map Index vs)"
  shows "hStar2b_cut n vs offset \<le> length vs
    \<and> (\<forall>k < hStar2b_cut n vs offset. Index (vs ! k) < 2 ^ nat (n - 1) + offset)
    \<and> (\<forall>k. hStar2b_cut n vs offset \<le> k \<and> k < length vs \<longrightarrow>
          2 ^ nat (n - 1) + offset \<le> Index (vs ! k))"
proof -
  let ?f = "\<lambda>i. 2 ^ nat (n - 1) + offset \<le> Index (vs ! i)"
  have mono: "?f b" if "a \<le> b" "b < length vs" "?f a" for a b
  proof -
    have "map Index vs ! a \<le> map Index vs ! b"
      using assms that by (intro sorted_nth_mono) simp_all
    then show ?thesis using that by simp
  qed
  have "sort_Search_loop ?f 0 (length vs) \<le> length vs
    \<and> (\<forall>k < sort_Search_loop ?f 0 (length vs). \<not> ?f k)
    \<and> (\<forall>k. sort_Search_loop ?f 0 (length vs) \<le> k \<and> k < length vs \<longrightarrow> ?f k)"
    by (rule sort_Search_loop_spec) (use mono in simp_all)
  then show ?thesis
    by (simp add: hStar2b_cut_def sort_Search_def not_le)
qed

lemma take_cut_filter:
  assumes "sorted (map Index vs)"
  shows "take (hStar2b_cut n vs offset) vs = filter (\<lambda>v. Index v < 2 ^ nat (n - 1) + offset) vs"
    and "drop (hStar2b_cut n vs offset) vs = filter (\<lambda>v. \<not> Index v < 2 ^ nat (n - 1) + offset) vs"
proof -
  let ?r = "hStar2b_cut n vs offset"
  let ?P = "\<lambda>v. Index v < 2 ^ nat (n - 1) + offset"
  note sp = hStar2b_cut_spec [OF assms, of n offset]
  have lo: "?P x" if "x \<in> set (take ?r vs)" for x
  proof -
    have "x \<in> nth vs ` {0..<?r}"
      using that sp nth_image [of ?r vs] by simp
    then show ?thesis using sp by auto
  qed
  have hi: "\<not> ?P x" if mem: "x \<in> set (drop ?r vs)" for x
  proof -
    obtain k where k: "k < length (drop ?r vs)" and xk: "x = drop ?r vs ! k"
      using mem unfolding in_set_conv_nth by blast
    have len: "?r + k < length vs"
      using k by simp
    have "x = vs ! (?r + k)"
      using xk sp by simp
    moreover have "2 ^ nat (n - 1) + offset \<le> Index (vs ! (?r + k))"
      using sp len by simp
    ultimately show ?thesis by (simp add: not_less)
  qed
  have split: "vs = take ?r vs @ drop ?r vs" by simp
  have a: "filter ?P (take ?r vs) = take ?r vs" using lo by (simp add: filter_id_conv)
  have b: "filter ?P (drop ?r vs) = []" using hi by (simp add: filter_empty_conv)
  have c: "filter (\<lambda>v. \<not> ?P v) (take ?r vs) = []" using lo by (simp add: filter_empty_conv)
  have d: "filter (\<lambda>v. \<not> ?P v) (drop ?r vs) = drop ?r vs" using hi by (simp add: filter_id_conv)
  have "filter ?P vs = filter ?P (take ?r vs) @ filter ?P (drop ?r vs)"
    by (subst split) (simp only: filter_append)
  then show "take ?r vs = filter ?P vs" using a b by simp
  have "filter (\<lambda>v. \<not> ?P v) vs = filter (\<lambda>v. \<not> ?P v) (take ?r vs) @ filter (\<lambda>v. \<not> ?P v) (drop ?r vs)"
    by (subst split) (simp only: filter_append)
  then show "drop ?r vs = filter (\<lambda>v. \<not> ?P v) vs" using c d by simp
qed

lemma cut_takeWhile:
  assumes "sorted (map Index vs)"
  shows "hStar2b_cut n vs offset = length (takeWhile (\<lambda>v. Index v < 2 ^ nat (n - 1) + offset) vs)"
proof -
  let ?r = "hStar2b_cut n vs offset"
  note sp = hStar2b_cut_spec [OF assms, of n offset]
  have "takeWhile (\<lambda>v. Index v < 2 ^ nat (n - 1) + offset) vs = take ?r vs"
    using sp by (intro takeWhile_eq_take_P_nth) auto
  then show ?thesis using sp by simp
qed


lemma sorted_take_Index: "sorted (map Index vs) \<Longrightarrow> sorted (map Index (take k vs))"
  by (simp add: take_map [symmetric] sorted_wrt_take)

lemma sorted_drop_Index: "sorted (map Index vs) \<Longrightarrow> sorted (map Index (drop k vs))"
  by (simp add: drop_map [symmetric] sorted_wrt_drop)

lemma h_spec_empty: "0 \<le> n \<Longrightarrow> h_spec s (nat n) [] offset get setf st = get n offset st"
proof (cases "nat n")
  case 0
  assume "0 \<le> n"
  then have "n = 0" using 0 by simp
  then show ?thesis by simp
next
  case (Suc k)
  assume "0 \<le> n"
  then have "int (Suc k) = n" using Suc by linarith
  then show ?thesis using Suc by (simp del: of_nat_Suc)
qed

text \<open>
  Claim C3. On values sorted by index and for a height \<open>n \<ge> 0\<close>, hStar2b with a
  setter computes what the recursive core of the specification computes: the same
  hash or failure, and the same calls of \<open>get\<close> and \<open>set\<close> in the same order (the
  state they thread is equal). On sorted values the binary search of the code cuts
  at the first index \<open>\<ge> split\<close>.
\<close>

theorem C3_core_refines_spec:
  assumes "0 \<le> n" and "sorted (map Index vs)"
  shows "hStar2b s n vs offset get (Some setf) st = h_spec s (nat n) vs offset get setf st"
  using assms
proof (induction n vs offset st rule: hStar2b_cases_induct)
  case (base vs offset st)
  show ?case
  proof (cases vs)
    case Nil
    then show ?thesis by (simp add: hStar2b_base)
  next
    case (Cons v ws)
    then show ?thesis by (cases ws) (simp_all add: hStar2b_base)
  qed
next
  case (empty n offset st)
  then show ?case by (simp add: hStar2b_empty h_spec_empty)
next
  case (neg n vs offset st)
  then show ?case by simp
next
  case (step n vs offset st)
  define m where "m = nat (n - 1)"
  have n: "nat n = Suc m" "1 + int m = n" "n - 1 = int m"
    using step.hyps(1) by (simp_all add: m_def)
  have sorted: "sorted (map Index vs)" by (rule step.prems(2))
  have cut: "first_index_ge (offset + 2 ^ m) vs = hStar2b_cut n vs offset"
    using cut_takeWhile [OF sorted, of n offset] by (simp add: first_index_ge_def m_def add.commute)
  have l: "hStar2b s (n - 1) (take (hStar2b_cut n vs offset) vs) offset get (Some setf) st'
      = h_spec s m (take (hStar2b_cut n vs offset) vs) offset get setf st'" for st'
    using step.IH(1) [of st'] step.hyps(1) sorted by (simp add: m_def sorted_take_Index)
  have r: "hStar2b s (n - 1) (drop (hStar2b_cut n vs offset) vs) (2 ^ nat (n - 1) + offset) get (Some setf) st'
      = h_spec s m (drop (hStar2b_cut n vs offset) vs) (offset + 2 ^ m) get setf st'" for st'
    using step.IH(2) [of st'] step.hyps(1) sorted by (simp add: m_def sorted_drop_Index add.commute)
  show ?case
    unfolding hStar2b_step [OF step.hyps] n(1) h_spec.simps
    using step.hyps(2) by (simp add: Let_def cut l r n(2) split: prod.splits sum.splits)
qed

theorem C3_core_refines_spec_witness:
  "(0 :: int) \<le> 2
   \<and> sorted (map Index [\<lparr>Index = 1, LeafHash = [9]\<rparr>, \<lparr>Index = 2, LeafHash = [4]\<rparr>])
   \<and> hStar2b toy_engine 2 [\<lparr>Index = 1, LeafHash = [9]\<rparr>, \<lparr>Index = 2, LeafHash = [4]\<rparr>] 0
        (HStar2Root_get toy_engine) (Some HStar2Root_set) ()
      = (Inr [27] :: unit failure + bytes, ())"
proof -
  have a: "h_spec toy_engine 2 [\<lparr>Index = 1, LeafHash = [9]\<rparr>, \<lparr>Index = 2, LeafHash = [4]\<rparr>] 0
        (HStar2Root_get toy_engine) HStar2Root_set () = (Inr [27] :: unit failure + bytes, ())"
    by code_simp
  have b: "nat 2 = (2 :: nat)"
    by simp
  have c: "hStar2b toy_engine 2 [\<lparr>Index = 1, LeafHash = [9]\<rparr>, \<lparr>Index = 2, LeafHash = [4]\<rparr>] 0
        (HStar2Root_get toy_engine) (Some HStar2Root_set) ()
      = h_spec toy_engine (nat 2) [\<lparr>Index = 1, LeafHash = [9]\<rparr>, \<lparr>Index = 2, LeafHash = [4]\<rparr>] 0
        (HStar2Root_get toy_engine) HStar2Root_set ()"
    by (rule C3_core_refines_spec) simp_all
  have d: "hStar2b toy_engine 2 [\<lparr>Index = 1, LeafHash = [9]\<rparr>, \<lparr>Index = 2, LeafHash = [4]\<rparr>] 0
        (HStar2Root_get toy_engine) (Some HStar2Root_set) ()
      = (Inr [27] :: unit failure + bytes, ())"
    using c unfolding b by (rule trans) (rule a)
  show ?thesis
    by (intro conjI d) simp_all
qed

section \<open>The root does not depend on the order of the values\<close>

lemma mset_eq_length_le1:
  assumes "mset vs = mset ws" and "length vs = 1"
  shows "vs = ws"
proof -
  obtain a where a: "vs = [a]"
    using assms(2) by (cases vs) auto
  have "length ws = 1"
    using assms mset_eq_length [of vs ws] by simp
  then obtain b where b: "ws = [b]"
    by (cases ws) auto
  show ?thesis using assms(1) a b by simp
qed

lemma hStar2b_mset_cong:
  assumes "sorted (map Index vs)" and "sorted (map Index ws)" and "mset vs = mset ws"
  shows "hStar2b s n vs offset get setf st = hStar2b s n ws offset get setf st"
  using assms
proof (induction n vs offset st arbitrary: ws rule: hStar2b_cases_induct)
  case (base vs offset st)
  have len: "length vs = length ws"
    using base.prems(3) by (rule mset_eq_length)
  show ?case
  proof (cases "length vs = 1")
    case True
    then show ?thesis using mset_eq_length_le1 [OF base.prems(3)] by simp
  next
    case False
    then show ?thesis using len by (auto simp: hStar2b_base)
  qed
next
  case (empty n offset st)
  then show ?case by simp
next
  case (neg n vs offset st)
  then have "ws \<noteq> []" by auto
  then show ?case using neg by (simp add: hStar2b_neg)
next
  case (step n vs offset st)
  have ws: "ws \<noteq> []" using step.prems(3) step.hyps(2) by auto
  note tv = take_cut_filter [OF step.prems(1), of n offset]
  note tw = take_cut_filter [OF step.prems(2), of n offset]
  have l: "hStar2b s (n - 1) (take (hStar2b_cut n vs offset) vs) offset get setf st'
      = hStar2b s (n - 1) (take (hStar2b_cut n ws offset) ws) offset get setf st'" for st'
    unfolding tv tw
    by (rule step.IH(1) [unfolded tv])
       (simp_all add: sorted_filter step.prems)
  have r: "hStar2b s (n - 1) (drop (hStar2b_cut n vs offset) vs) (2 ^ nat (n - 1) + offset) get setf st'
      = hStar2b s (n - 1) (drop (hStar2b_cut n ws offset) ws) (2 ^ nat (n - 1) + offset) get setf st'" for st'
    unfolding tv tw
    by (rule step.IH(2) [unfolded tv])
       (simp_all add: sorted_filter step.prems)
  show ?case
    by (simp only: hStar2b_step [OF step.hyps, of s offset get setf st]
        hStar2b_step [OF step.hyps(1) ws, of s offset get setf st] l r)
qed

lemma hStar2b_hasher_cong:
  assumes "hasher s = hasher s'"
  shows "hStar2b s n vs offset get setf st = hStar2b s' n vs offset get setf st"
proof (induction n vs offset st rule: hStar2b_cases_induct)
  case (base vs offset st)
  show ?case by (simp add: hStar2b_base)
next
  case (empty n offset st)
  show ?case by (simp add: hStar2b_empty)
next
  case (neg n vs offset st)
  then show ?case by (simp add: hStar2b_neg)
next
  case (step n vs offset st)
  show ?case
    by (simp only: hStar2b_step [OF step.hyps, of s offset get setf st]
        hStar2b_step [OF step.hyps, of s' offset get setf st] step.IH assms)
qed

lemma HStar2Root_get_hasher_cong:
  "hasher s = hasher s' \<Longrightarrow> HStar2Root_get s = HStar2Root_get s'"
  by (auto simp: HStar2Root_get_def fun_eq_iff HashEmpty_def split: sum.splits)

text \<open>
  Claim C4. The outcome of HStar2Root (the root hash, or the way the call fails)
  is a function of the height and of the multiset of the values: two lists with the
  same elements in any order give the same outcome. It is also the same for two
  engines over the same hasher, whatever their tree ids.
\<close>

theorem C4_root_depends_on_multiset:
  assumes "mset vs = mset ws" and "hasher s = hasher s'"
  shows "fst (HStar2Root s n vs) = fst (HStar2Root s' n ws)"
proof -
  have "mset (sort_Sort vs) = mset (sort_Sort ws)"
    using assms(1) by (simp add: mset_sort_Sort)
  then have "hStar2b s n (sort_Sort vs) 0 (HStar2Root_get s) (Some HStar2Root_set) ()
      = hStar2b s n (sort_Sort ws) 0 (HStar2Root_get s) (Some HStar2Root_set) ()"
    by (intro hStar2b_mset_cong sorted_sort_Sort)
  also have "\<dots> = hStar2b s' n (sort_Sort ws) 0 (HStar2Root_get s) (Some HStar2Root_set) ()"
    by (rule hStar2b_hasher_cong [OF assms(2)])
  also have "\<dots> = hStar2b s' n (sort_Sort ws) 0 (HStar2Root_get s') (Some HStar2Root_set) ()"
    by (simp only: HStar2Root_get_hasher_cong [OF assms(2)])
  finally have e: "hStar2b s n (sort_Sort vs) 0 (HStar2Root_get s) (Some HStar2Root_set) ()
      = hStar2b s' n (sort_Sort ws) 0 (HStar2Root_get s') (Some HStar2Root_set) ()" .
  show ?thesis
    unfolding HStar2Root_def Let_def fst_conv by (rule arg_cong [OF e])
qed

theorem C4_root_depends_on_multiset_witness:
  "mset [\<lparr>Index = 3, LeafHash = [5]\<rparr>, \<lparr>Index = 1, LeafHash = [9]\<rparr>]
     = mset [\<lparr>Index = 1, LeafHash = [9]\<rparr>, \<lparr>Index = 3, LeafHash = [5]\<rparr>]
   \<and> hasher toy_engine = hasher (NewHStar2 99 (New toy_Hash))
   \<and> fst (HStar2Root (NewHStar2 99 (New toy_Hash)) 8
          [\<lparr>Index = 1, LeafHash = [9]\<rparr>, \<lparr>Index = 3, LeafHash = [5]\<rparr>])
      = (Inr [8] :: unit failure + bytes)"
proof -
  have m: "mset [\<lparr>Index = 3, LeafHash = [5]\<rparr>, \<lparr>Index = 1, LeafHash = [9]\<rparr>]
     = mset [\<lparr>Index = 1, LeafHash = [9]\<rparr>, \<lparr>Index = 3, LeafHash = [5]\<rparr>]"
    by simp
  have h: "hasher toy_engine = hasher (NewHStar2 99 (New toy_Hash))"
    by (simp add: toy_engine_def NewHStar2_def)
  have a: "fst (HStar2Root toy_engine 8 [\<lparr>Index = 3, LeafHash = [5]\<rparr>, \<lparr>Index = 1, LeafHash = [9]\<rparr>])
      = (Inr [8] :: unit failure + bytes)"
    by code_simp
  have e: "fst (HStar2Root toy_engine 8 [\<lparr>Index = 3, LeafHash = [5]\<rparr>, \<lparr>Index = 1, LeafHash = [9]\<rparr>])
      = (fst (HStar2Root (NewHStar2 99 (New toy_Hash)) 8
          [\<lparr>Index = 1, LeafHash = [9]\<rparr>, \<lparr>Index = 3, LeafHash = [5]\<rparr>]) :: unit failure + bytes)"
    by (rule C4_root_depends_on_multiset [OF m h])
  show ?thesis
    using m h e a by simp
qed

section \<open>Levels passed to the callbacks\<close>

lemma hStar2b_callbacks_cong:
  assumes "0 \<le> n"
    and "\<And>d i st. 0 \<le> d \<Longrightarrow> d \<le> n \<Longrightarrow> get d i st = get' d i st"
    and "\<And>d i h st. 0 \<le> d \<Longrightarrow> d \<le> n \<Longrightarrow> setf d i h st = setf' d i h st"
  shows "hStar2b s n vs offset get (Some setf) st = hStar2b s n vs offset get' (Some setf') st"
  using assms
proof (induction n vs offset st rule: hStar2b_cases_induct)
  case (base vs offset st)
  then show ?case by (simp add: hStar2b_base)
next
  case (empty n offset st)
  then show ?case by (simp add: hStar2b_empty)
next
  case (neg n vs offset st)
  then show ?case by simp
next
  case (step n vs offset st)
  have g: "get d i st = get' d i st" if "0 \<le> d" "d \<le> n - 1" for d i st
    using step.prems(2) [of d i st] that by simp
  have f: "setf d i h st = setf' d i h st" if "0 \<le> d" "d \<le> n - 1" for d i h st
    using step.prems(3) [of d i h st] that by simp
  have n1: "0 \<le> n - 1" using step.hyps(1) by simp
  note l = step.IH(1) [OF n1 g f]
  note r = step.IH(2) [OF n1 g f]
  have top: "setf n i h st = setf' n i h st" for i h st
    using step.prems(3) [of n i h st] step.hyps(1) by simp
  show ?case
    by (simp only: hStar2b_step [OF step.hyps, of s offset get "Some setf" st]
        hStar2b_step [OF step.hyps, of s offset get' "Some setf'" st] l r top option.case)
qed


lemma HStar2Nodes_get_spec_get:
  assumes "0 \<le> depth" and "0 \<le> sd" and "depth + sd \<le> BitLen (hasher s)"
    and "BitLen (hasher s) < 2 ^ 63" and "0 \<le> d" and "d \<le> sd"
  shows "HStar2Nodes_get s sd (go_int (go_int (BitLen (hasher s) - depth) - sd)) get d i st
    = spec_get s depth sd get d i st"
proof -
  have a: "go_int (BitLen (hasher s) - depth) = BitLen (hasher s) - depth"
    using assms by (intro go_int_in_range) linarith+
  have b: "go_int (BitLen (hasher s) - depth - sd) = BitLen (hasher s) - depth - sd"
    using assms by (intro go_int_in_range) linarith+
  have c: "go_int (sd - d) = sd - d"
    using assms by (intro go_int_in_range) linarith+
  have e: "go_int (d + (BitLen (hasher s) - depth - sd)) = d + (BitLen (hasher s) - depth - sd)"
    using assms by (intro go_int_in_range) linarith+
  show ?thesis
    by (simp only: HStar2Nodes_get_def spec_get_def a b c e)
qed

lemma HStar2Nodes_set_spec_set:
  assumes "0 \<le> sd" and "sd < 2 ^ 63" and "0 \<le> d" and "d \<le> sd"
  shows "HStar2Nodes_set sd setf d i h st = spec_set sd setf d i h st"
proof -
  have c: "go_int (sd - d) = sd - d"
    using assms by (intro go_int_in_range) linarith+
  show ?thesis
    by (simp only: HStar2Nodes_set_def spec_set_def c)
qed

lemma rec_get_trace: "snd (rec_get answer level index tr) = tr @ [GetEvent level index]"
  by (simp add: rec_get_def)

lemma spec_get_rec_get_trace:
  "snd (spec_get s depth sd (rec_get answer) n index tr) = tr @ [GetEvent (sd - n) index]"
  by (simp add: spec_get_def rec_get_def split: sum.splits option.splits)

lemma HStar2Nodes_runs_spec_callbacks:
  assumes "0 \<le> depth" and "0 \<le> sd" and "depth + sd \<le> BitLen (hasher s)"
    and "BitLen (hasher s) < 2 ^ 63"
  shows "HStar2Nodes s index depth sd vs get setf st
      = (hStar2b s sd (sort_Sort vs) (big_SetBytes index)
           (spec_get s depth sd get) (Some (spec_set sd setf)) st, sort_Sort vs)"
proof -
  let ?off = "go_int (go_int (BitLen (hasher s) - depth) - sd)"
  have off: "?off = BitLen (hasher s) - depth - sd"
    using assms by (simp add: go_int_in_range)
  then have nonneg: "\<not> ?off < 0"
    using assms by simp
  have sd: "sd < 2 ^ 63"
    using assms by linarith
  have core: "hStar2b s sd ws off (HStar2Nodes_get s sd ?off get) (Some (HStar2Nodes_set sd setf)) st
      = hStar2b s sd ws off (spec_get s depth sd get) (Some (spec_set sd setf)) st"
    for ws off
  proof (rule hStar2b_callbacks_cong [OF assms(2)])
    show "HStar2Nodes_get s sd ?off get d i st = spec_get s depth sd get d i st"
      if "0 \<le> d" "d \<le> sd" for d i st
      using assms that by (rule HStar2Nodes_get_spec_get)
    show "HStar2Nodes_set sd setf d i h st = spec_set sd setf d i h st"
      if "0 \<le> d" "d \<le> sd" for d i h st
      using assms(2) sd that by (rule HStar2Nodes_set_spec_set)
  qed
  show ?thesis
    using nonneg by (simp add: HStar2Nodes_def Let_def core)
qed

text \<open>
  Claim C2, as amended. For a subtree inside the tree (\<open>0 \<le> depth\<close>,
  \<open>0 \<le> subtreeDepth\<close>, \<open>depth + subtreeDepth \<le> BitLen\<close>), HStar2Nodes runs the
  recursive core with the callbacks of the specification: at local height \<open>n\<close> the
  caller's \<open>get\<close> and \<open>set\<close> receive the level \<open>subtreeDepth - n\<close>, and HashEmpty,
  consulted when \<open>get\<close> answers nil, receives \<open>n + (BitLen - depth - subtreeDepth)\<close>.
  The local height is 0 at the leaves of the subtree and \<open>subtreeDepth\<close> at its
  root, so level 0 is the root of the subtree: with no values the one call made is
  \<open>get\<close> at level 0 for the subtree's own index.
\<close>

theorem C2_levels:
  assumes "0 \<le> depth" and "0 \<le> sd" and "depth + sd \<le> BitLen (hasher s)"
    and "BitLen (hasher s) < 2 ^ 63"
  shows "HStar2Nodes s index depth sd vs get setf st
      = (hStar2b s sd (sort_Sort vs) (big_SetBytes index)
           (spec_get s depth sd get) (Some (spec_set sd setf)) st, sort_Sort vs)
   \<and> snd (fst (HStar2Nodes s index depth sd [] (rec_get answer) (rec_set answer') tr))
      = tr @ [GetEvent 0 (big_SetBytes index)]"
proof
  show "HStar2Nodes s index depth sd vs get setf st
      = (hStar2b s sd (sort_Sort vs) (big_SetBytes index)
           (spec_get s depth sd get) (Some (spec_set sd setf)) st, sort_Sort vs)"
    using assms by (rule HStar2Nodes_runs_spec_callbacks)
  show "snd (fst (HStar2Nodes s index depth sd [] (rec_get answer) (rec_set answer') tr))
      = tr @ [GetEvent 0 (big_SetBytes index)]"
    by (simp add: HStar2Nodes_runs_spec_callbacks [OF assms] sort_Sort_def hStar2b_empty
        spec_get_rec_get_trace)
qed

theorem C2_levels_witness:
  "(0 :: int) \<le> 7 \<and> (0 :: int) \<le> 1 \<and> 7 + 1 \<le> BitLen (hasher toy_engine)
   \<and> BitLen (hasher toy_engine) < 2 ^ 63
   \<and> hStar2b toy_engine 1 (sort_Sort [\<lparr>Index = 1, LeafHash = [3]\<rparr>]) (big_SetBytes [])
        (spec_get toy_engine 7 1 (rec_get no_node)) (Some (spec_set 1 (rec_set store_ok))) []
      = (Inr [8], [GetEvent 1 0, SetEvent 0 0 [8]])
   \<and> snd (fst (HStar2Nodes toy_engine [] 7 1 [] (rec_get no_node) (rec_set store_ok) []))
      = [GetEvent 0 0]"
proof -
  have b: "BitLen (hasher toy_engine) = 8"
    by (simp add: toy_engine_def NewHStar2_def BitLen_def toy_Hash_def)
  have e: "HStar2Nodes toy_engine [] 7 1 [\<lparr>Index = 1, LeafHash = [3]\<rparr>]
        (rec_get no_node) (rec_set store_ok) []
      = ((Inr [8], [GetEvent 1 0, SetEvent 0 0 [8]]), sort_Sort [\<lparr>Index = 1, LeafHash = [3]\<rparr>])"
    by code_simp
  have z: "big_SetBytes [] = 0"
    by (simp add: big_SetBytes_def)
  note t = C2_levels [of 7 1 toy_engine "[]" "[\<lparr>Index = 1, LeafHash = [3]\<rparr>]"
      "rec_get no_node" "rec_set store_ok" "[]" no_node store_ok "[]"]
  show ?thesis
    using t e b z by simp
qed

text \<open>
  Claim C2, as stated, says that level 0 denotes the deepest level of the subtree.
  In a subtree of depth 2 with one value at index 1, the first call asks for the
  empty leaf 0, at the deepest level, and carries level 2; the last call stores the
  root of the subtree and carries level 0.
\<close>

theorem C2_level_zero_counterexample:
  "snd (fst (HStar2Nodes toy_engine [] 6 2 [\<lparr>Index = 1, LeafHash = [9]\<rparr>]
        (rec_get no_node) (rec_set store_ok) []))
   = [GetEvent 2 0, SetEvent 1 0 [14], GetEvent 1 2, SetEvent 0 0 [24]]"
  by code_simp

end
